theory Spec2Isabelle
  imports Main "HOL-Library.Code_Target_Nat"
begin

section \<open>Strings and character classes\<close>

text \<open>
  A Python \<^verbatim>\<open>str\<close> is a sequence of Unicode code points, and \<^verbatim>\<open>len\<close>, slicing and the
  positions of a match count code points. A text is therefore a list of code points;
  \<open>ascii\<close> turns a literal into one.
\<close>

type_synonym codepoint = nat
type_synonym pystr = "codepoint list"

definition ascii :: "string \<Rightarrow> pystr" where
  "ascii s = map of_char s"

text \<open>
  The classes \<^verbatim>\<open>\d\<close> and \<^verbatim>\<open>\w\<close> of a \<^verbatim>\<open>str\<close> pattern follow the Unicode database of the
  interpreter. Below 128 they are fixed; above, the database is a parameter of the model:
  \<open>uni_decimal\<close> is \<^verbatim>\<open>str.isdecimal\<close> and \<open>uni_alnum\<close> is \<^verbatim>\<open>str.isalnum\<close> there.
\<close>

record unicode_db =
  uni_decimal :: "codepoint \<Rightarrow> bool"
  uni_alnum :: "codepoint \<Rightarrow> bool"

definition is_digit :: "unicode_db \<Rightarrow> codepoint \<Rightarrow> bool" where
  "is_digit U c = (if c < 128 then 48 \<le> c \<and> c \<le> 57 else uni_decimal U c)"

definition is_word :: "unicode_db \<Rightarrow> codepoint \<Rightarrow> bool" where
  "is_word U c =
     (if c < 128 then (48 \<le> c \<and> c \<le> 57) \<or> (65 \<le> c \<and> c \<le> 90) \<or> c = 95 \<or> (97 \<le> c \<and> c \<le> 122)
      else uni_alnum U c)"

text \<open>
  White space, for \<^verbatim>\<open>\s\<close> and for \<^verbatim>\<open>str.strip()\<close> alike: tab to carriage return, the four
  separators 28 to 31, the space, and the Unicode white space above 127.
\<close>

definition is_space :: "codepoint \<Rightarrow> bool" where
  "is_space c =
     ((9 \<le> c \<and> c \<le> 13) \<or> (28 \<le> c \<and> c \<le> 32) \<or> c = 133 \<or> c = 160 \<or> c = 5760 \<or>
      (8192 \<le> c \<and> c \<le> 8202) \<or> c = 8232 \<or> c = 8233 \<or> c = 8239 \<or> c = 8287 \<or> c = 12288)"

definition slice :: "pystr \<Rightarrow> nat \<Rightarrow> nat \<Rightarrow> pystr" where
  \<comment> \<open>\<^verbatim>\<open>text[a:b]\<close> for indices that are not negative\<close>
  "slice t a b = drop a (take b t)"

definition strip :: "pystr \<Rightarrow> pystr" where
  \<comment> \<open>\<^verbatim>\<open>str.strip()\<close>: leading and trailing white space removed\<close>
  "strip t = rev (dropWhile is_space (rev (dropWhile is_space t)))"

section \<open>Regular expressions as the \<^verbatim>\<open>re\<close> module matches them\<close>

text \<open>
  The two patterns of the repository use literals, the classes \<^verbatim>\<open>\d \s \w\<close>, bracketed
  sets, greedy repetition of a single character or class (\<^verbatim>\<open>+ * ? {1,2}\<close>), the word
  boundary \<^verbatim>\<open>\b\<close>, concatenation and alternation inside non-capturing groups.
\<close>

datatype citem = CLit codepoint | CRange codepoint codepoint | CDigit | CSpace | CWord

datatype regex =
    In "citem list"
  | Rep "citem list" nat "nat option"
  | Bnd
  | Eps
  | Seq regex regex
  | Alt regex regex

fun in_item :: "unicode_db \<Rightarrow> citem \<Rightarrow> codepoint \<Rightarrow> bool" where
  "in_item U (CLit k) c = (c = k)"
| "in_item U (CRange lo hi) c = (lo \<le> c \<and> c \<le> hi)"
| "in_item U CDigit c = is_digit U c"
| "in_item U CSpace c = is_space c"
| "in_item U CWord c = is_word U c"

definition in_items :: "unicode_db \<Rightarrow> citem list \<Rightarrow> codepoint \<Rightarrow> bool" where
  "in_items U cs c = list_ex (\<lambda>i. in_item U i c) cs"

definition word_at :: "unicode_db \<Rightarrow> pystr \<Rightarrow> nat \<Rightarrow> bool" where
  "word_at U t p = (p < length t \<and> is_word U (t ! p))"

definition at_boundary :: "unicode_db \<Rightarrow> pystr \<Rightarrow> nat \<Rightarrow> bool" where
  \<comment> \<open>\<^verbatim>\<open>\b\<close>: exactly one of the characters before and after the position is a word character\<close>
  "at_boundary U t p = ((0 < p \<and> word_at U t (p - 1)) \<noteq> word_at U t p)"

definition run :: "unicode_db \<Rightarrow> citem list \<Rightarrow> pystr \<Rightarrow> nat \<Rightarrow> nat" where
  \<comment> \<open>how many characters from position \<open>p\<close> on are in the class\<close>
  "run U cs t p = length (takeWhile (in_items U cs) (drop p t))"

text \<open>
  \<open>matches U r t p\<close> lists the positions at which a match of \<open>r\<close> that starts at \<open>p\<close> can
  end, in the order in which the backtracking matcher tries them: a greedy repetition
  takes the longest run first and gives characters back one at a time, an alternation
  tries its branches from left to right. The head of the list is the match that is
  reported.
\<close>

fun matches :: "unicode_db \<Rightarrow> regex \<Rightarrow> pystr \<Rightarrow> nat \<Rightarrow> nat list" where
  "matches U (In cs) t p = (if p < length t \<and> in_items U cs (t ! p) then [Suc p] else [])"
| "matches U (Rep cs lo hi) t p =
     (let k = run U cs t p;
          n = (case hi of None \<Rightarrow> k | Some h \<Rightarrow> min k h)
      in map (\<lambda>i. p + i) (rev [lo ..< Suc n]))"
| "matches U Bnd t p = (if at_boundary U t p then [p] else [])"
| "matches U Eps t p = [p]"
| "matches U (Seq a b) t p = concat (map (matches U b t) (matches U a t p))"
| "matches U (Alt a b) t p = matches U a t p @ matches U b t p"

definition lit :: "string \<Rightarrow> regex" where
  "lit s = foldr (\<lambda>c r. Seq (In [CLit (of_char c)]) r) s Eps"

definition seqs :: "regex list \<Rightarrow> regex" where
  "seqs rs = foldr Seq rs Eps"

definition alts :: "regex \<Rightarrow> regex list \<Rightarrow> regex" where
  "alts r rs = foldl Alt r rs"

definition search :: "unicode_db \<Rightarrow> regex \<Rightarrow> pystr \<Rightarrow> nat \<Rightarrow> (nat \<times> nat) option" where
  \<comment> \<open>the leftmost start at or after \<open>pos\<close> with a match, and the end reported for it\<close>
  "search U r t pos =
     (case List.find (\<lambda>s. matches U r t s \<noteq> []) [pos ..< Suc (length t)] of
        None \<Rightarrow> None
      | Some s \<Rightarrow> Some (s, hd (matches U r t s)))"

text \<open>
  The scan of \<^verbatim>\<open>re.findall\<close> and \<^verbatim>\<open>re.sub\<close>: the spans of the matches from left to
  right, each search starting where the match before ended. After an empty match the
  scan moves one character on; no pattern of the repository matches the empty string.
\<close>

function finditer :: "unicode_db \<Rightarrow> regex \<Rightarrow> pystr \<Rightarrow> nat \<Rightarrow> (nat \<times> nat) list" where
  "finditer U r t pos =
     (case search U r t pos of
        None \<Rightarrow> []
      | Some (s, e) \<Rightarrow> (s, e) # finditer U r t (if e \<le> s then Suc s else e))"
  by pat_completeness auto
termination
proof (relation "measure (\<lambda>(U, r, t, pos). Suc (length t) - pos)")
  show "wf (measure (\<lambda>(U, r, t, pos). Suc (length t) - pos))"
    by simp
next
  fix U r t pos x s e
  assume found: "search U r t pos = Some x" and x: "(s, e) = x"
  have mem: "List.find P xs = Some y \<Longrightarrow> y \<in> set xs" for P and xs :: "nat list" and y
    by (induction xs) (auto split: if_splits)
  from found x have "List.find (\<lambda>s. matches U r t s \<noteq> []) [pos ..< Suc (length t)] = Some s"
    by (auto simp: search_def simp del: upt_Suc split: option.splits)
  then have "s \<in> set [pos ..< Suc (length t)]"
    by (rule mem)
  then have "pos \<le> s" and "s \<le> length t"
    by (simp_all only: set_upt atLeastLessThan_iff less_Suc_eq_le)
  then show "((U, r, t, if e \<le> s then Suc s else e), U, r, t, pos)
      \<in> measure (\<lambda>(U, r, t, pos). Suc (length t) - pos)"
    by auto
qed

declare finditer.simps [simp del]

definition findall :: "unicode_db \<Rightarrow> regex \<Rightarrow> pystr \<Rightarrow> pystr list" where
  \<comment> \<open>\<^verbatim>\<open>re.findall\<close> for a pattern without capturing groups: the matched substrings\<close>
  "findall U r t = map (\<lambda>(s, e). slice t s e) (finditer U r t 0)"

section \<open>The citation matcher\<close>

definition title12 :: regex where
  \<comment> \<open>\<^verbatim>\<open>\d{1,2}\s\<close>\<close>
  "title12 = Seq (Rep [CDigit] 1 (Some 2)) (In [CSpace])"

definition sp :: regex where
  "sp = In [CSpace]"

definition digits1 :: regex where
  \<comment> \<open>\<^verbatim>\<open>\d+\<close>\<close>
  "digits1 = Rep [CDigit] 1 None"

definition of_title :: regex where
  \<comment> \<open>\<^verbatim>\<open>\sof\stitle\s\d+,\sUnited\sStates\sCode\<close>\<close>
  "of_title = seqs [sp, lit ''of'', sp, lit ''title'', sp, digits1, lit '','', sp,
                    lit ''United'', sp, lit ''States'', sp, lit ''Code'']"

definition abbrev_lead_ins :: regex where
  \<comment> \<open>the five forms with an abbreviation, each after \<^verbatim>\<open>\d{1,2}\s\<close>\<close>
  "abbrev_lead_ins =
     alts (Seq title12 (lit ''U.S.C.''))
       [Seq title12 (lit ''USC''),
        Seq title12 (seqs [lit ''U.S.'', sp, lit ''Code'']),
        Seq title12 (seqs [lit ''U.S.'', sp, lit ''C.'']),
        Seq title12 (seqs [lit ''US'', sp, lit ''Code''])]"

definition title_lead_ins :: regex where
  \<comment> \<open>the two forms that end with \<^verbatim>\<open>of title <n>, United States Code\<close>\<close>
  "title_lead_ins =
     Alt (seqs [lit ''chapter'', sp, digits1, of_title])
         (seqs [digits1, Rep [CWord] 1 None, of_title])"

definition lead_ins_27 :: regex where
  \<comment> \<open>the seven alternatives of the group, tried from left to right\<close>
  "lead_ins_27 = Alt abbrev_lead_ins title_lead_ins"

definition pattern_27 :: regex where
  \<comment> \<open>the pattern of the 2024-11-27 file; 8211 is the en dash\<close>
  "pattern_27 =
     seqs [Bnd, lead_ins_27, Rep [CSpace] 0 (Some 1),
           Rep [CDigit, CWord, CLit 45, CLit 8211] 0 None, Bnd]"

definition pattern_28 :: regex where
  \<comment> \<open>\<^verbatim>\<open>(?:\d+)\s*U\.S\.C\.\s*(?:\d+[-,0-9a-zA-Z]*)\<close>\<close>
  "pattern_28 =
     seqs [digits1, Rep [CSpace] 0 None, lit ''U.S.C.'', Rep [CSpace] 0 None, digits1,
           Rep [CLit 45, CLit 44, CRange 48 57, CRange 97 122, CRange 65 90] 0 None]"

definition find_us_code_citations_27 :: "unicode_db \<Rightarrow> pystr \<Rightarrow> pystr list" where
  "find_us_code_citations_27 U text = findall U pattern_27 text"

definition find_us_code_citations_28 :: "unicode_db \<Rightarrow> pystr \<Rightarrow> pystr list" where
  "find_us_code_citations_28 U text = map strip (findall U pattern_28 text)"

section \<open>Normalization and context (2024-11-28)\<close>

fun sub_from :: "pystr \<Rightarrow> pystr \<Rightarrow> nat \<Rightarrow> (nat \<times> nat) list \<Rightarrow> pystr" where
  "sub_from repl t pos [] = drop pos t"
| "sub_from repl t pos ((s, e) # spans) = slice t pos s @ repl @ sub_from repl t e spans"

definition re_sub :: "unicode_db \<Rightarrow> regex \<Rightarrow> pystr \<Rightarrow> pystr \<Rightarrow> pystr" where
  \<comment> \<open>\<^verbatim>\<open>re.sub\<close> with a replacement that has no escapes: every match replaced by \<open>repl\<close>\<close>
  "re_sub U r repl t = sub_from repl t 0 (finditer U r t 0)"

definition replace_char :: "codepoint \<Rightarrow> codepoint \<Rightarrow> pystr \<Rightarrow> pystr" where
  \<comment> \<open>\<^verbatim>\<open>str.replace\<close> of one character by one character\<close>
  "replace_char old new t = map (\<lambda>c. if c = old then new else c) t"

definition ws_plus :: regex where
  \<comment> \<open>\<^verbatim>\<open>\s+\<close>\<close>
  "ws_plus = Rep [CSpace] 1 None"

definition normalize_text :: "unicode_db \<Rightarrow> pystr \<Rightarrow> pystr" where
  \<comment> \<open>\<^verbatim>\<open>\s+\<close> to one space, then the em dash (8212) to the hyphen (45)\<close>
  "normalize_text U text = replace_char 8212 45 (re_sub U ws_plus (ascii '' '') text)"

record match =
  m_start :: nat
  m_end :: nat

definition context_bounds :: "pystr \<Rightarrow> match \<Rightarrow> int \<Rightarrow> int \<times> int" where
  \<comment> \<open>\<open>start_idx\<close> and \<open>end_idx\<close> of \<open>get_context\<close>\<close>
  "context_bounds text m context_length =
     (max (int (m_start m) - context_length) 0,
      min (int (m_end m) + context_length) (int (length text)))"

definition get_context :: "pystr \<Rightarrow> match \<Rightarrow> int \<Rightarrow> pystr" where
  "get_context text m context_length =
     (case context_bounds text m context_length of
        (start_idx, end_idx) \<Rightarrow> strip (slice text (nat start_idx) (nat end_idx)))"

definition re_escape :: "pystr \<Rightarrow> regex" where
  \<comment> \<open>the pattern of \<^verbatim>\<open>re.escape(s)\<close>: the characters of \<open>s\<close>, each a literal\<close>
  "re_escape s = foldr (\<lambda>c r. Seq (In [CLit c]) r) s Eps"

definition re_search :: "unicode_db \<Rightarrow> regex \<Rightarrow> pystr \<Rightarrow> match option" where
  "re_search U r t = map_option (\<lambda>(s, e). \<lparr>m_start = s, m_end = e\<rparr>) (search U r t 0)"

section \<open>Documents, the network and the file system\<close>

text \<open>
  What the PDF library makes of a downloaded file: it cannot be opened, or it has
  pages; the text extraction of a page returns a string, returns nothing, or raises.
\<close>

datatype page = PageText pystr | PageNone | PageRaises

datatype pdf_doc = Unreadable | Pages "page list"

text \<open>
  A result record is a dictionary, kept as an association list in insertion order. A
  data frame takes its columns from the keys of its records, and \<^verbatim>\<open>to_csv(index=False)\<close>
  writes the column names as the header line and one line per record.
\<close>

datatype cell = VStr pystr | VList "pystr list"

type_synonym row = "(string \<times> cell) list"

record table =
  header :: "string list"
  body :: "cell option list list"

definition columns_of :: "row list \<Rightarrow> string list" where
  "columns_of rows =
     foldl (\<lambda>ks k. if k \<in> set ks then ks else ks @ [k]) [] (concat (map (map fst) rows))"

definition to_csv :: "row list \<Rightarrow> table" where
  "to_csv rows =
     \<lparr>header = columns_of rows, body = map (\<lambda>r. map (map_of r) (columns_of rows)) rows\<rparr>"

datatype content = Downloaded pdf_doc | Csv table

datatype exn = ConnectionError | RetryError | HTTPError | OSError

datatype level = INFO | WARNING | ERROR

datatype message =
    Attempting pystr
  | Downloaded_ok pystr
  | Download_error pystr exn
  | Unexpected_error exn
  | Text_extracted pystr
  | Extract_error pystr
  | Found_citations nat
  | Processing_file pystr
  | Results_saved pystr
  | No_citations

record world =
  files :: "pystr \<rightharpoonup> content"
  log :: "(level \<times> message) list"
  sent :: nat

definition logging :: "level \<Rightarrow> message \<Rightarrow> world \<Rightarrow> world" where
  "logging l m w = w\<lparr>log := log w @ [(l, m)]\<rparr>"

text \<open>
  The server is a parameter: what it does with the \<open>k\<close>-th request of the run for a URL,
  an answer with a status and a body, or no answer (a timeout or a connection error).
  The random headers, the delays between requests and the clock act on the run only
  through it, and the file system is taken to accept every write to a path that names
  a file.
\<close>

datatype net_event = Answer nat pdf_doc | NoAnswer

type_synonym server = "pystr \<Rightarrow> nat \<Rightarrow> net_event"

definition status_forcelist :: "nat list" where
  "status_forcelist = [429, 500, 502, 503, 504]"

text \<open>
  \<^verbatim>\<open>session.get\<close> under \<^verbatim>\<open>Retry(total=5, status_forcelist=...)\<close>: a request with no answer or
  with a status of the list is sent again while retries are left; with none left the
  adapter raises. The second component counts the requests sent.
\<close>

fun session_get :: "nat \<Rightarrow> (nat \<Rightarrow> net_event) \<Rightarrow> nat \<Rightarrow> (exn + nat \<times> pdf_doc) \<times> nat" where
  "session_get 0 srv k =
     (case srv k of
        NoAnswer \<Rightarrow> (Inl ConnectionError, Suc k)
      | Answer status content \<Rightarrow>
          (if status \<in> set status_forcelist then (Inl RetryError, Suc k)
           else (Inr (status, content), Suc k)))"
| "session_get (Suc n) srv k =
     (case srv k of
        NoAnswer \<Rightarrow> session_get n srv (Suc k)
      | Answer status content \<Rightarrow>
          (if status \<in> set status_forcelist then session_get n srv (Suc k)
           else (Inr (status, content), Suc k)))"

definition raise_for_status :: "nat \<Rightarrow> bool" where
  "raise_for_status status = (400 \<le> status \<and> status < 600)"

definition last_segment :: "pystr \<Rightarrow> pystr" where
  \<comment> \<open>\<^verbatim>\<open>url.split("/")[-1]\<close> and \<^verbatim>\<open>os.path.basename(url)\<close>: what follows the last slash (47)\<close>
  "last_segment url = rev (takeWhile (\<lambda>c. c \<noteq> 47) (rev url))"

definition names_file :: "pystr \<Rightarrow> bool" where
  \<comment> \<open>the path does not end in a slash, \<^verbatim>\<open>.\<close> or \<^verbatim>\<open>..\<close>, which name a directory\<close>
  "names_file path = (last_segment path \<notin> {[], ascii ''.'', ascii ''..''})"

section \<open>The 2024-11-27 script\<close>

text \<open>
  \<^verbatim>\<open>open\<close> is inside the \<^verbatim>\<open>try\<close>: a destination that is not a file is an unexpected error,
  caught like the others.
\<close>

definition download_pdf_27 :: "server \<Rightarrow> pystr \<Rightarrow> pystr \<Rightarrow> world \<Rightarrow> bool \<times> world" where
  "download_pdf_27 srv url filename w =
     (let w1 = logging INFO (Attempting url) w in
      case session_get 5 (srv url) (sent w1) of
        (Inl ConnectionError, k) \<Rightarrow>
          (False, logging ERROR (Download_error url ConnectionError) (w1\<lparr>sent := k\<rparr>))
      | (Inl e, k) \<Rightarrow> (False, logging ERROR (Unexpected_error e) (w1\<lparr>sent := k\<rparr>))
      | (Inr (status, content), k) \<Rightarrow>
          (if raise_for_status status
           then (False, logging ERROR (Unexpected_error HTTPError) (w1\<lparr>sent := k\<rparr>))
           else if \<not> names_file filename
           then (False, logging ERROR (Unexpected_error OSError) (w1\<lparr>sent := k\<rparr>))
           else (True, logging INFO (Downloaded_ok url)
                   (w1\<lparr>sent := k, files := (files w1)(filename \<mapsto> Downloaded content)\<rparr>))))"

text \<open>
  The page loop of the 2024-11-27 extractor appends to \<open>text\<close> inside the \<^verbatim>\<open>try\<close>: when a
  page raises, the text gathered so far is what the function returns.
\<close>

fun read_pages_27 :: "page list \<Rightarrow> pystr \<Rightarrow> pystr \<times> bool" where
  "read_pages_27 [] text = (text, True)"
| "read_pages_27 (PageText s # ps) text = read_pages_27 ps (text @ s)"
| "read_pages_27 (PageNone # ps) text = (text, False)"
| "read_pages_27 (PageRaises # ps) text = (text, False)"

definition extract_text_from_pdf_27 :: "pystr \<Rightarrow> world \<Rightarrow> pystr \<times> world" where
  "extract_text_from_pdf_27 pdf_path w =
     (case files w pdf_path of
        Some (Downloaded (Pages ps)) \<Rightarrow>
          (case read_pages_27 ps [] of
             (text, True) \<Rightarrow> (text, logging INFO (Text_extracted pdf_path) w)
           | (text, False) \<Rightarrow> (text, logging ERROR (Extract_error pdf_path) w))
      | _ \<Rightarrow> ([], logging ERROR (Extract_error pdf_path) w))"

definition row_27 :: "pystr \<Rightarrow> pystr list \<Rightarrow> row" where
  "row_27 filename citations = [(''filename'', VStr filename), (''citations'', VList citations)]"

definition step_27 :: "unicode_db \<Rightarrow> server \<Rightarrow> pystr \<Rightarrow> row list \<times> world \<Rightarrow> row list \<times> world" where
  \<comment> \<open>the body of the loop over the URLs\<close>
  "step_27 U srv url st =
     (case st of (results, w) \<Rightarrow>
        (let filename = last_segment url in
         case download_pdf_27 srv url filename w of
           (True, w1) \<Rightarrow>
             (case extract_text_from_pdf_27 filename w1 of
                (text, w2) \<Rightarrow>
                  (let citations = find_us_code_citations_27 U text;
                       w3 = logging INFO (Found_citations (length citations)) w2
                   in (results @ [row_27 filename citations], w3)))
         | (False, w1) \<Rightarrow> (results, w1)))"

fun loop_27 :: "unicode_db \<Rightarrow> server \<Rightarrow> pystr list \<Rightarrow> row list \<times> world \<Rightarrow> row list \<times> world" where
  "loop_27 U srv [] st = st"
| "loop_27 U srv (url # urls) st = loop_27 U srv urls (step_27 U srv url st)"

definition main_27 :: "unicode_db \<Rightarrow> server \<Rightarrow> pystr list \<Rightarrow> world \<Rightarrow> row list \<times> world" where
  "main_27 U srv urls w =
     (case loop_27 U srv urls ([], w) of (results, w1) \<Rightarrow>
        (results,
         logging INFO (Results_saved (ascii ''us_code_citations.csv''))
           (w1\<lparr>files := (files w1)(ascii ''us_code_citations.csv'' \<mapsto> Csv (to_csv results))\<rparr>)))"

section \<open>The 2024-11-28 script\<close>

text \<open>
  Here only request errors are caught: a destination that is a directory (the URL ends
  with a slash, for one) makes \<^verbatim>\<open>open\<close> raise out of the function and ends the run.
\<close>

definition download_pdf_28 :: "server \<Rightarrow> pystr \<Rightarrow> pystr \<Rightarrow> world \<Rightarrow> exn + bool \<times> world" where
  "download_pdf_28 srv url filename w =
     (let w1 = logging INFO (Attempting url) w in
      case session_get 5 (srv url) (sent w1) of
        (Inl e, k) \<Rightarrow> Inr (False, logging ERROR (Download_error url e) (w1\<lparr>sent := k\<rparr>))
      | (Inr (status, content), k) \<Rightarrow>
          (if raise_for_status status
           then Inr (False, logging ERROR (Download_error url HTTPError) (w1\<lparr>sent := k\<rparr>))
           else if \<not> names_file filename
           then Inl OSError
           else Inr (True, logging INFO (Downloaded_ok url)
                   (w1\<lparr>sent := k, files := (files w1)(filename \<mapsto> Downloaded content)\<rparr>))))"

fun page_texts :: "page list \<Rightarrow> pystr list" where
  \<comment> \<open>the texts of the pages whose text is neither missing nor empty\<close>
  "page_texts [] = []"
| "page_texts (PageText s # ps) = (if s = [] then page_texts ps else s # page_texts ps)"
| "page_texts (p # ps) = page_texts ps"

fun join :: "pystr \<Rightarrow> pystr list \<Rightarrow> pystr" where
  "join sep [] = []"
| "join sep [x] = x"
| "join sep (x # y # ys) = x @ sep @ join sep (y # ys)"

definition extract_text_from_pdf_28 :: "pystr \<Rightarrow> world \<Rightarrow> pystr \<times> world" where
  "extract_text_from_pdf_28 filepath w =
     (case files w filepath of
        Some (Downloaded (Pages ps)) \<Rightarrow>
          (if PageRaises \<in> set ps then ([], logging ERROR (Extract_error filepath) w)
           else (join (ascii '' '') (page_texts ps), w))
      | _ \<Rightarrow> ([], logging ERROR (Extract_error filepath) w))"

definition row_28 :: "pystr \<Rightarrow> pystr \<Rightarrow> pystr \<Rightarrow> row" where
  "row_28 url citation context =
     [(''url'', VStr url), (''citation'', VStr citation), (''context'', VStr context)]"

definition citation_rows :: "unicode_db \<Rightarrow> pystr \<Rightarrow> pystr \<Rightarrow> pystr list \<Rightarrow> row list" where
  \<comment> \<open>the loop over the citations of one document\<close>
  "citation_rows U url text citations =
     concat (map (\<lambda>citation.
        case re_search U (re_escape citation) text of
          None \<Rightarrow> []
        | Some m \<Rightarrow> [row_28 url citation (get_context text m 40)]) citations)"

definition step_28 ::
  "unicode_db \<Rightarrow> server \<Rightarrow> pystr \<Rightarrow> row list \<times> world \<Rightarrow> exn + row list \<times> world" where
  "step_28 U srv url st =
     (case st of (results, w) \<Rightarrow>
        (let filename = last_segment url;
             filepath = ascii ''downloads/'' @ filename
         in case download_pdf_28 srv url filepath w of
              Inl e \<Rightarrow> Inl e
            | Inr (True, w1) \<Rightarrow>
                (case extract_text_from_pdf_28 filepath (logging INFO (Processing_file filepath) w1) of
                   (text, w2) \<Rightarrow>
                     (if text \<noteq> []
                      then (let text' = normalize_text U text;
                                citations = find_us_code_citations_28 U text'
                            in Inr (results @ citation_rows U url text' citations, w2))
                      else Inr (results, w2)))
            | Inr (False, w1) \<Rightarrow> Inr (results, w1)))"

fun loop_28 ::
  "unicode_db \<Rightarrow> server \<Rightarrow> pystr list \<Rightarrow> row list \<times> world \<Rightarrow> exn + row list \<times> world" where
  "loop_28 U srv [] st = Inr st"
| "loop_28 U srv (url # urls) st =
     (case step_28 U srv url st of Inl e \<Rightarrow> Inl e | Inr st' \<Rightarrow> loop_28 U srv urls st')"

definition process_urls :: "unicode_db \<Rightarrow> server \<Rightarrow> pystr \<Rightarrow> pystr list \<Rightarrow> world \<Rightarrow> exn + row list \<times> world" where
  \<comment> \<open>\<open>output_filename\<close> is the time-stamped name that \<open>generate_output_filename\<close> returned\<close>
  "process_urls U srv output_filename urls w =
     (case loop_28 U srv urls ([], w) of
        Inl e \<Rightarrow> Inl e
      | Inr (results, w1) \<Rightarrow>
          (if results \<noteq> []
           then Inr (results,
                  logging INFO (Results_saved output_filename)
                    (w1\<lparr>files := (files w1)(output_filename \<mapsto> Csv (to_csv results))\<rparr>))
           else Inr (results, logging WARNING No_citations w1)))"

section \<open>Auxiliary definitions of the proofs\<close>

definition no_unicode :: unicode_db where
  \<comment> \<open>a database for texts below 128: nothing above is a digit or a letter\<close>
  "no_unicode = \<lparr>uni_decimal = (\<lambda>c. False), uni_alnum = (\<lambda>c. False)\<rparr>"

definition always_503 :: server where
  \<comment> \<open>a server that answers every request with the status 503\<close>
  "always_503 = (\<lambda>url k. Answer 503 Unreadable)"

definition fresh_world :: world where
  "fresh_world = \<lparr>files = Map.empty, log = [], sent = 0\<rparr>"

definition plain_server :: server where
  \<comment> \<open>a server that sends a one-page document without a citation\<close>
  "plain_server = (\<lambda>url k. Answer 200 (Pages [PageText (ascii ''Nothing is cited on this page.'')]))"


fun is_download :: "level \<times> message \<Rightarrow> bool" where
  "is_download (l, Downloaded_ok url) = True"
| "is_download (l, m) = False"

definition downloads_logged :: "world \<Rightarrow> nat" where
  \<comment> \<open>how many downloads the log reports as successful\<close>
  "downloads_logged w = length (filter is_download (log w))"

text \<open>The least number of characters that a match of a pattern takes.\<close>

fun min_len :: "regex \<Rightarrow> nat" where
  "min_len (In cs) = 1"
| "min_len (Rep cs lo hi) = lo"
| "min_len Bnd = 0"
| "min_len Eps = 0"
| "min_len (Seq a b) = min_len a + min_len b"
| "min_len (Alt a b) = min (min_len a) (min_len b)"

text \<open>
  What a left-to-right scan for non-overlapping occurrences is, said on its own: from
  \<open>pos\<close> on, each span starts at the first position where the pattern matches, ends
  where the matcher reports, is not empty, and the scan goes on from its end; after the
  last span the pattern matches nowhere.
\<close>

fun is_scan :: "unicode_db \<Rightarrow> regex \<Rightarrow> pystr \<Rightarrow> nat \<Rightarrow> (nat \<times> nat) list \<Rightarrow> bool" where
  "is_scan U r t pos [] = (\<forall>q\<in>{pos..length t}. matches U r t q = [])"
| "is_scan U r t pos ((s, e) # spans) =
     (s \<in> {pos..length t} \<and> (\<forall>q\<in>{pos..<s}. matches U r t q = [])
      \<and> matches U r t s \<noteq> [] \<and> e = hd (matches U r t s) \<and> s < e \<and> e \<le> length t
      \<and> is_scan U r t e spans)"

text \<open>
  Runs of white space squeezed to one space, written by recursion on the text, and the
  texts in which every white space character is a single space between other characters.
\<close>

function collapse :: "pystr \<Rightarrow> pystr" where
  "collapse [] = []"
| "collapse (c # cs) = (if is_space c then 32 # collapse (dropWhile is_space cs) else c # collapse cs)"
  by pat_completeness auto
termination
  by (relation "measure length") (auto simp: length_dropWhile_le less_Suc_eq_le)

fun single_spaced :: "pystr \<Rightarrow> bool" where
  "single_spaced [] = True"
| "single_spaced [c] = (is_space c \<longrightarrow> c = 32)"
| "single_spaced (c # d # r) = ((is_space c \<longrightarrow> c = 32 \<and> \<not> is_space d) \<and> single_spaced (d # r))"

text \<open>The first position at which a string occurs in a text.\<close>

definition first_occurrence :: "pystr \<Rightarrow> pystr \<Rightarrow> nat option" where
  "first_occurrence c t = List.find (\<lambda>i. take (length c) (drop i t) = c) [0 ..< Suc (length t)]"

section \<open>The end-to-end scenario\<close>

lemma scenario_27:
  "find_us_code_citations_27 U (ascii ''Pursuant to 7 U.S.C. 136 and chapter 5 of title 7, United States Code, the Secretary shall...'')
     = [ascii ''7 U.S.C. 136'', ascii ''chapter 5 of title 7, United States Code'']"
  by code_simp

lemma scenario_28:
  "find_us_code_citations_28 U (ascii ''Pursuant to 7 U.S.C. 136 and chapter 5 of title 7, United States Code, the Secretary shall...'')
     = [ascii ''7 U.S.C. 136'']"
  by code_simp

lemma scenario_distinct:
  "ascii ''7 U.S.C. 136'' \<noteq> ascii ''chapter 5 of title 7, United States Code''"
  by (simp add: ascii_def)

text \<open>
  C1 (as amended). On the scenario text the pattern of the 2024-11-27 file finds two
  distinct citations, \<^verbatim>\<open>7 U.S.C. 136\<close> and \<^verbatim>\<open>chapter 5 of title 7, United States Code\<close>, in
  this order. The pattern of the 2024-11-28 file has no form for a chapter of a title
  and finds the first one only.
\<close>

theorem scenario_matches:
  "find_us_code_citations_27 U (ascii ''Pursuant to 7 U.S.C. 136 and chapter 5 of title 7, United States Code, the Secretary shall...'')
     = [ascii ''7 U.S.C. 136'', ascii ''chapter 5 of title 7, United States Code'']
   \<and> ascii ''7 U.S.C. 136'' \<noteq> ascii ''chapter 5 of title 7, United States Code''
   \<and> find_us_code_citations_28 U (ascii ''Pursuant to 7 U.S.C. 136 and chapter 5 of title 7, United States Code, the Secretary shall...'')
     = [ascii ''7 U.S.C. 136'']"
  using scenario_distinct by (simp add: scenario_27 scenario_28)

text \<open>
  C1, as the claim states it, fails for the matcher of the 2024-11-28 file: it returns
  one match on the scenario text, and the chapter form is not among its matches.
\<close>

theorem scenario_28_counterexample:
  "\<forall>U. length (find_us_code_citations_28 U (ascii ''Pursuant to 7 U.S.C. 136 and chapter 5 of title 7, United States Code, the Secretary shall...'')) = 1
     \<and> ascii ''chapter 5 of title 7, United States Code''
        \<notin> set (find_us_code_citations_28 U (ascii ''Pursuant to 7 U.S.C. 136 and chapter 5 of title 7, United States Code, the Secretary shall...''))"
  using scenario_distinct by (simp add: scenario_28)

section \<open>The context window\<close>

lemma context_bounds_40:
  assumes "m_start m \<le> m_end m" and "m_end m \<le> length text"
  shows "context_bounds text m 40 = (int (m_start m - 40), int (min (m_end m + 40) (length text)))"
  using assms by (auto simp: context_bounds_def)

lemma slice_split:
  assumes "a \<le> b" "b \<le> c" 
  shows "slice t a c = slice t a b @ slice t b c"
proof -
  have "take c t = take b t @ take (c - b) (drop b t)"
    using assms by (metis le_add_diff_inverse take_add)
  then have "drop a (take c t) = drop a (take b t) @ take (c - b) (drop b t)"
    using assms by (simp add: min_def)
  moreover have "take (c - b) (drop b t) = drop b (take c t)"
    using assms by (simp add: drop_take)
  ultimately show ?thesis by (simp add: slice_def)
qed

text \<open>
  C3. For a match span inside the text, the context is the stripped window made of the
  at most 40 characters before the start of the match, the match, and the at most 40
  characters after its end; the bounds of the window are never below 0 nor above the
  length of the text, and nothing follows a match that ends with the text (so for a
  text of length 50 and a match that ends at 50 the trailing context is empty).
\<close>

theorem get_context_window:
  assumes "m_start m \<le> m_end m" and "m_end m \<le> length text"
  shows "let before = slice text (m_start m - 40) (m_start m);
             after = slice text (m_end m) (min (m_end m + 40) (length text))
         in get_context text m 40 = strip (before @ slice text (m_start m) (m_end m) @ after)
            \<and> length before \<le> 40 \<and> length after \<le> 40
            \<and> 0 \<le> fst (context_bounds text m 40)
            \<and> snd (context_bounds text m 40) \<le> int (length text)
            \<and> (m_end m = length text \<longrightarrow> after = [])"
proof -
  have a: "slice text (m_start m - 40) (min (m_end m + 40) (length text))
      = slice text (m_start m - 40) (m_start m) @ slice text (m_start m) (m_end m)
        @ slice text (m_end m) (min (m_end m + 40) (length text))"
    using assms slice_split[of "m_start m - 40" "m_start m" "min (m_end m + 40) (length text)" "text"]
      slice_split[of "m_start m" "m_end m" "min (m_end m + 40) (length text)" "text"]
    by simp
  have b: "get_context text m 40 = strip (slice text (m_start m - 40) (min (m_end m + 40) (length text)))"
    using assms by (simp add: get_context_def context_bounds_40)
  have c: "length (slice text (m_start m - 40) (m_start m)) \<le> 40"
    by (simp add: slice_def)
  have d: "length (slice text (m_end m) (min (m_end m + 40) (length text))) \<le> 40"
    by (simp add: slice_def)
  have e: "m_end m = length text \<Longrightarrow> slice text (m_end m) (min (m_end m + 40) (length text)) = []"
    by (simp add: slice_def)
  show ?thesis
    unfolding Let_def using a b c d e assms by (simp add: context_bounds_40)
qed

theorem get_context_window_witness:
  "length (ascii ''As the law provides in section 5 or 42 U.S.C. 1983'') = 50
   \<and> slice (ascii ''As the law provides in section 5 or 42 U.S.C. 1983'') 50 50 = []
   \<and> get_context (ascii ''As the law provides in section 5 or 42 U.S.C. 1983'')
        \<lparr>m_start = 36, m_end = 50\<rparr> 40
      = ascii ''As the law provides in section 5 or 42 U.S.C. 1983''"
proof -
  have len: "length (ascii ''As the law provides in section 5 or 42 U.S.C. 1983'') = 50"
    by (simp add: ascii_def)
  have h1: "m_start \<lparr>m_start = 36, m_end = 50\<rparr> \<le> m_end \<lparr>m_start = 36, m_end = 50\<rparr>"
    by simp
  have h2: "m_end \<lparr>m_start = 36, m_end = 50\<rparr>
      \<le> length (ascii ''As the law provides in section 5 or 42 U.S.C. 1983'')"
    by (simp add: len)
  have val: "strip (slice (ascii ''As the law provides in section 5 or 42 U.S.C. 1983'') 0 36
          @ slice (ascii ''As the law provides in section 5 or 42 U.S.C. 1983'') 36 50 @ [])
      = ascii ''As the law provides in section 5 or 42 U.S.C. 1983''"
    by code_simp
  have "slice (ascii ''As the law provides in section 5 or 42 U.S.C. 1983'') 50 50 = []
    \<and> get_context (ascii ''As the law provides in section 5 or 42 U.S.C. 1983'')
        \<lparr>m_start = 36, m_end = 50\<rparr> 40
      = strip (slice (ascii ''As the law provides in section 5 or 42 U.S.C. 1983'') 0 36
          @ slice (ascii ''As the law provides in section 5 or 42 U.S.C. 1983'') 36 50
          @ slice (ascii ''As the law provides in section 5 or 42 U.S.C. 1983'') 50 50)"
    using get_context_window[OF h1 h2] by (simp add: Let_def len)
  then show ?thesis
    using val by (simp add: len)
qed

section \<open>Failed downloads\<close>

lemma session_get_503:
  assumes "\<forall>k. \<exists>c. s k = Answer 503 c"
  shows "session_get n s k = (Inl RetryError, Suc (k + n))"
proof (induction n arbitrary: k)
  case 0
  from assms obtain c where "s k = Answer 503 c" by blast
  then show ?case by (simp add: status_forcelist_def)
next
  case (Suc n)
  from assms obtain c where "s k = Answer 503 c" by blast
  then show ?case by (simp add: status_forcelist_def Suc.IH)
qed

lemma download_pdf_27_failed:
  assumes "download_pdf_27 srv url filename w = (False, w1)"
  shows "\<exists>m. log w1 = log w @ [(INFO, Attempting url), (ERROR, m)] \<and> files w1 = files w"
  using assms
  by (auto simp: download_pdf_27_def logging_def Let_def
      split: prod.splits sum.splits exn.splits if_splits)

lemma download_pdf_28_failed:
  assumes "download_pdf_28 srv url filename w = Inr (False, w1)"
  shows "\<exists>m. log w1 = log w @ [(INFO, Attempting url), (ERROR, m)] \<and> files w1 = files w"
  using assms
  by (auto simp: download_pdf_28_def logging_def Let_def
      split: prod.splits sum.splits exn.splits if_splits)

lemma step_27_failed:
  assumes "download_pdf_27 srv url (last_segment url) w = (False, w1)"
  shows "step_27 U srv url (results, w) = (results, w1)"
  using assms by (simp add: step_27_def)

lemma step_28_failed:
  assumes "download_pdf_28 srv url (ascii ''downloads/'' @ last_segment url) w = Inr (False, w1)"
  shows "step_28 U srv url (results, w) = Inr (results, w1)"
  using assms by (simp add: step_28_def)

text \<open>
  C8. When \<open>download_pdf\<close> returns False for a URL, the loop body leaves the results as
  they were and the world as the download left it: the files are unchanged and the log
  has gained the attempt and one error, so no extraction and no matching ran; the loop
  goes on with the remaining URLs. A server that answers 503 to every request makes
  \<open>download_pdf\<close> return False, after the six requests that five retries allow.
\<close>

theorem failed_download_skipped:
  "(download_pdf_27 srv url (last_segment url) w = (False, w1) \<longrightarrow>
      step_27 U srv url (results, w) = (results, w1)
      \<and> loop_27 U srv (url # urls) (results, w) = loop_27 U srv urls (results, w1)
      \<and> files w1 = files w
      \<and> (\<exists>m. log w1 = log w @ [(INFO, Attempting url), (ERROR, m)]))
   \<and> (download_pdf_28 srv url (ascii ''downloads/'' @ last_segment url) w = Inr (False, w2) \<longrightarrow>
      step_28 U srv url (results, w) = Inr (results, w2)
      \<and> loop_28 U srv (url # urls) (results, w) = loop_28 U srv urls (results, w2)
      \<and> files w2 = files w
      \<and> (\<exists>m. log w2 = log w @ [(INFO, Attempting url), (ERROR, m)]))
   \<and> ((\<forall>k. \<exists>c. srv url k = Answer 503 c) \<longrightarrow>
      fst (download_pdf_27 srv url filename w) = False
      \<and> (\<exists>w3. download_pdf_28 srv url filename w = Inr (False, w3))
      \<and> sent (snd (download_pdf_27 srv url filename w)) = sent w + 6)"
proof (intro conjI impI)
  assume a: "download_pdf_27 srv url (last_segment url) w = (False, w1)"
  show "step_27 U srv url (results, w) = (results, w1)"
    by (rule step_27_failed[OF a])
  then show "loop_27 U srv (url # urls) (results, w) = loop_27 U srv urls (results, w1)"
    by simp
  from download_pdf_27_failed[OF a] show "files w1 = files w"
    and "\<exists>m. log w1 = log w @ [(INFO, Attempting url), (ERROR, m)]"
    by blast+
next
  assume a: "download_pdf_28 srv url (ascii ''downloads/'' @ last_segment url) w = Inr (False, w2)"
  show "step_28 U srv url (results, w) = Inr (results, w2)"
    by (rule step_28_failed[OF a])
  then show "loop_28 U srv (url # urls) (results, w) = loop_28 U srv urls (results, w2)"
    by simp
  from download_pdf_28_failed[OF a] show "files w2 = files w"
    and "\<exists>m. log w2 = log w @ [(INFO, Attempting url), (ERROR, m)]"
    by blast+
next
  assume a: "\<forall>k. \<exists>c. srv url k = Answer 503 c"
  show "fst (download_pdf_27 srv url filename w) = False"
    by (simp add: download_pdf_27_def Let_def session_get_503[OF a])
  show "\<exists>w3. download_pdf_28 srv url filename w = Inr (False, w3)"
    by (simp add: download_pdf_28_def Let_def session_get_503[OF a])
  show "sent (snd (download_pdf_27 srv url filename w)) = sent w + 6"
    by (simp add: download_pdf_27_def Let_def session_get_503[OF a] logging_def)
qed

theorem failed_download_skipped_witness:
  "download_pdf_27 always_503 (ascii ''https://www.usda.gov/ppd.pdf'') (ascii ''ppd.pdf'') fresh_world
     = (False, \<lparr>files = Map.empty,
          log = [(INFO, Attempting (ascii ''https://www.usda.gov/ppd.pdf'')),
                 (ERROR, Unexpected_error RetryError)],
          sent = 6\<rparr>)
   \<and> step_27 no_unicode always_503 (ascii ''https://www.usda.gov/ppd.pdf'') ([], fresh_world)
     = ([], \<lparr>files = Map.empty,
          log = [(INFO, Attempting (ascii ''https://www.usda.gov/ppd.pdf'')),
                 (ERROR, Unexpected_error RetryError)],
          sent = 6\<rparr>)
   \<and> step_28 no_unicode always_503 (ascii ''https://www.usda.gov/ppd.pdf'') ([], fresh_world)
     = Inr ([], \<lparr>files = Map.empty,
          log = [(INFO, Attempting (ascii ''https://www.usda.gov/ppd.pdf'')),
                 (ERROR, Download_error (ascii ''https://www.usda.gov/ppd.pdf'') RetryError)],
          sent = 6\<rparr>)"
proof -
  let ?url = "ascii ''https://www.usda.gov/ppd.pdf''"
  let ?w1 = "\<lparr>files = Map.empty,
          log = [(INFO, Attempting ?url), (ERROR, Unexpected_error RetryError)], sent = 6\<rparr>"
  let ?w2 = "\<lparr>files = Map.empty,
          log = [(INFO, Attempting ?url), (ERROR, Download_error ?url RetryError)], sent = 6\<rparr>"
  have seg: "last_segment ?url = ascii ''ppd.pdf''"
    by code_simp
  have busy: "\<forall>k. \<exists>c. always_503 ?url k = Answer 503 c"
    by (simp add: always_503_def)
  have get: "session_get 5 (always_503 ?url) 0 = (Inl RetryError, 6)"
    by (simp add: always_503_def status_forcelist_def eval_nat_numeral)
  have d27: "download_pdf_27 always_503 ?url (last_segment ?url) fresh_world = (False, ?w1)"
    by (simp add: download_pdf_27_def Let_def logging_def fresh_world_def get)
  have d28: "download_pdf_28 always_503 ?url (ascii ''downloads/'' @ last_segment ?url) fresh_world
      = Inr (False, ?w2)"
    by (simp add: download_pdf_28_def Let_def logging_def fresh_world_def get)
  from failed_download_skipped[of always_503 ?url fresh_world ?w1 no_unicode "[]" "[]" ?w2 "ascii ''ppd.pdf''"]
    d27 d28 busy
  show ?thesis
    by (simp add: seg)
qed

section \<open>Documents that cannot be read\<close>

lemma session_get_answer:
  "srv k = Answer 200 c \<Longrightarrow> session_get n srv k = (Inr (200, c), Suc k)"
  by (cases n) (simp_all add: status_forcelist_def)




section \<open>One row per downloaded document (2024-11-27)\<close>

lemma download_pdf_27_count:
  "download_pdf_27 srv url filename w = (ok, w1) \<Longrightarrow>
     downloads_logged w1 = downloads_logged w + (if ok then 1 else 0)"
  by (auto simp: download_pdf_27_def logging_def Let_def downloads_logged_def
      split: prod.splits sum.splits exn.splits if_splits)

lemma extract_text_from_pdf_27_count:
  "downloads_logged (snd (extract_text_from_pdf_27 path w)) = downloads_logged w"
  by (auto simp: extract_text_from_pdf_27_def logging_def downloads_logged_def
      split: option.splits content.splits pdf_doc.splits prod.splits bool.splits)

lemma step_27_ok:
  assumes "download_pdf_27 srv url (last_segment url) w = (True, w1)"
  shows "step_27 U srv url (results, w)
    = (results @ [row_27 (last_segment url)
          (find_us_code_citations_27 U (fst (extract_text_from_pdf_27 (last_segment url) w1)))],
       logging INFO (Found_citations (length
          (find_us_code_citations_27 U (fst (extract_text_from_pdf_27 (last_segment url) w1)))))
         (snd (extract_text_from_pdf_27 (last_segment url) w1)))"
  using assms by (simp add: step_27_def Let_def split: prod.splits)

lemma step_27_count:
  "length (fst (step_27 U srv url (results, w))) + downloads_logged w
     = length results + downloads_logged (snd (step_27 U srv url (results, w)))"
proof (cases "download_pdf_27 srv url (last_segment url) w")
  case (Pair ok w1)
  show ?thesis
  proof (cases ok)
    case True
    with Pair have d: "download_pdf_27 srv url (last_segment url) w = (True, w1)" by simp
    have "downloads_logged (snd (step_27 U srv url (results, w))) = downloads_logged w1"
      using extract_text_from_pdf_27_count[of "last_segment url" w1]
      by (simp add: step_27_ok[OF d] logging_def downloads_logged_def)
    with download_pdf_27_count[OF d] show ?thesis
      by (simp add: step_27_ok[OF d])
  next
    case False
    with Pair have d: "download_pdf_27 srv url (last_segment url) w = (False, w1)" by simp
    with download_pdf_27_count[OF d] show ?thesis
      by (simp add: step_27_def)
  qed
qed

lemma loop_27_count:
  "length (fst (loop_27 U srv urls st)) + downloads_logged (snd st)
     = length (fst st) + downloads_logged (snd (loop_27 U srv urls st))"
proof (induction urls arbitrary: st)
  case Nil
  then show ?case by simp
next
  case (Cons url urls)
  obtain results w where st: "st = (results, w)" by (cases st)
  from Cons.IH[of "step_27 U srv url st"] step_27_count[of U srv url results w]
  show ?case by (simp add: st)
qed

text \<open>
  C10. In the 2024-11-27 file a URL whose download succeeds adds exactly one row to the
  results, the file name with the list of the citations found, whether the list is
  empty or not; over a whole run the number of rows added is the number of downloads
  that the log reports as successful.
\<close>

theorem one_row_per_download:
  "(download_pdf_27 srv url (last_segment url) w = (True, w1) \<longrightarrow>
      fst (step_27 U srv url (results, w))
        = results @ [[(''filename'', VStr (last_segment url)),
                      (''citations'', VList (find_us_code_citations_27 U
                          (fst (extract_text_from_pdf_27 (last_segment url) w1))))]])
   \<and> length (fst (loop_27 U srv urls (results, w))) + downloads_logged w
       = length results + downloads_logged (snd (loop_27 U srv urls (results, w)))"
proof (intro conjI impI)
  assume "download_pdf_27 srv url (last_segment url) w = (True, w1)"
  then show "fst (step_27 U srv url (results, w))
        = results @ [[(''filename'', VStr (last_segment url)),
                      (''citations'', VList (find_us_code_citations_27 U
                          (fst (extract_text_from_pdf_27 (last_segment url) w1))))]]"
    by (simp add: step_27_ok row_27_def)
next
  show "length (fst (loop_27 U srv urls (results, w))) + downloads_logged w
       = length results + downloads_logged (snd (loop_27 U srv urls (results, w)))"
    using loop_27_count[of U srv urls "(results, w)"] by simp
qed

theorem one_row_per_download_witness:
  "fst (step_27 no_unicode plain_server (ascii ''https://www.usda.gov/ppd.pdf'') ([], fresh_world))
     = [[(''filename'', VStr (ascii ''ppd.pdf'')), (''citations'', VList [])]]"
proof -
  let ?url = "ascii ''https://www.usda.gov/ppd.pdf''"
  let ?doc = "Pages [PageText (ascii ''Nothing is cited on this page.'')]"
  let ?w1 = "\<lparr>files = [ascii ''ppd.pdf'' \<mapsto> Downloaded ?doc],
      log = [(INFO, Attempting ?url), (INFO, Downloaded_ok ?url)], sent = 1\<rparr>"
  have seg: "last_segment ?url = ascii ''ppd.pdf''"
    by code_simp
  have nf: "names_file (ascii ''ppd.pdf'')"
    by code_simp
  have get: "session_get 5 (plain_server ?url) 0 = (Inr (200, ?doc), 1)"
    by (simp add: session_get_answer plain_server_def)
  have d: "download_pdf_27 plain_server ?url (last_segment ?url) fresh_world = (True, ?w1)"
    by (simp add: download_pdf_27_def Let_def logging_def fresh_world_def seg nf get
        raise_for_status_def)
  have x: "fst (extract_text_from_pdf_27 (ascii ''ppd.pdf'') ?w1) = ascii ''Nothing is cited on this page.''"
    by (simp add: extract_text_from_pdf_27_def)
  have f: "find_us_code_citations_27 no_unicode (ascii ''Nothing is cited on this page.'') = []"
    by code_simp
  from one_row_per_download[of plain_server ?url fresh_world ?w1 no_unicode "[]" "[]"] d
  have "fst (step_27 no_unicode plain_server ?url ([], fresh_world))
      = [] @ [[(''filename'', VStr (last_segment ?url)),
               (''citations'', VList (find_us_code_citations_27 no_unicode
                   (fst (extract_text_from_pdf_27 (last_segment ?url) ?w1))))]]"
    by blast
  then show ?thesis
    by (simp only: x f seg append_Nil)
qed

section \<open>The output of a run without results\<close>

text \<open>
  C9 (as amended). With no result at the end of the run, the 2024-11-28 file writes no
  output file and logs a warning; the 2024-11-27 file writes the output file from an
  empty data frame, which has no columns: the file has neither column names nor rows.
\<close>

theorem empty_results_output:
  "(fst (loop_27 U srv urls ([], w)) = [] \<longrightarrow>
      fst (main_27 U srv urls w) = []
      \<and> files (snd (main_27 U srv urls w)) (ascii ''us_code_citations.csv'')
          = Some (Csv \<lparr>header = [], body = []\<rparr>))
   \<and> (loop_28 U srv urls ([], w) = Inr ([], w1) \<longrightarrow>
      process_urls U srv output_filename urls w = Inr ([], logging WARNING No_citations w1)
      \<and> files (logging WARNING No_citations w1) = files w1)"
  by (auto simp: main_27_def process_urls_def to_csv_def columns_of_def logging_def
      split: prod.splits)

lemma loop_27_always_503:
  "fst (loop_27 U always_503 urls (results, w)) = results"
proof (induction urls arbitrary: w)
  case Nil
  then show ?case by simp
next
  case (Cons url urls)
  have busy: "\<forall>k. \<exists>c. always_503 url k = Answer 503 c"
    by (simp add: always_503_def)
  have "fst (download_pdf_27 always_503 url (last_segment url) w) = False"
    by (simp add: download_pdf_27_def Let_def session_get_503[OF busy])
  then obtain w1 where "download_pdf_27 always_503 url (last_segment url) w = (False, w1)"
    by (cases "download_pdf_27 always_503 url (last_segment url) w") simp
  then have "step_27 U always_503 url (results, w) = (results, w1)"
    by (simp add: step_27_def)
  with Cons.IH[of w1] show ?case by simp
qed

text \<open>
  C9, as the claim states it, fails for the 2024-11-27 file: when every download fails
  (here against a server that answers 503 to every request) the results are empty and
  the output file is written with an empty header, where a file with one row has the
  header \<open>filename\<close>, \<open>citations\<close>.
\<close>

theorem empty_results_27_counterexample:
  "\<forall>U urls w f c.
     fst (main_27 U always_503 urls w) = []
     \<and> files (snd (main_27 U always_503 urls w)) (ascii ''us_code_citations.csv'')
         = Some (Csv \<lparr>header = [], body = []\<rparr>)
     \<and> header (to_csv [row_27 f c]) = [''filename'', ''citations'']"
proof (intro allI conjI)
  fix U urls w f c
  obtain rs w1 where l: "loop_27 U always_503 urls ([], w) = (rs, w1)"
    by (cases "loop_27 U always_503 urls ([], w)")
  with loop_27_always_503[of U urls "[]" w] have rs: "rs = []"
    by simp
  show "fst (main_27 U always_503 urls w) = []"
    by (simp add: main_27_def l rs)
  show "files (snd (main_27 U always_503 urls w)) (ascii ''us_code_citations.csv'')
         = Some (Csv \<lparr>header = [], body = []\<rparr>)"
    by (simp add: main_27_def l rs to_csv_def columns_of_def logging_def)
  show "header (to_csv [row_27 f c]) = [''filename'', ''citations'']"
    by (simp add: to_csv_def columns_of_def row_27_def)
qed

theorem empty_results_output_witness:
  "fst (main_27 no_unicode always_503 [ascii ''https://www.usda.gov/ppd.pdf''] fresh_world) = []
   \<and> files (snd (main_27 no_unicode always_503 [ascii ''https://www.usda.gov/ppd.pdf''] fresh_world))
        (ascii ''us_code_citations.csv'')
      = Some (Csv \<lparr>header = [], body = []\<rparr>)
   \<and> map_sum id (\<lambda>(rs, w). (rs, files w (ascii ''us_code_citations_2024-11-28-0900.csv''), last (log w)))
        (process_urls no_unicode always_503 (ascii ''us_code_citations_2024-11-28-0900.csv'')
           [ascii ''https://www.usda.gov/ppd.pdf''] fresh_world)
      = Inr ([], None, (WARNING, No_citations))"
proof -
  let ?url = "ascii ''https://www.usda.gov/ppd.pdf''"
  let ?w1 = "\<lparr>files = Map.empty,
          log = [(INFO, Attempting ?url), (ERROR, Unexpected_error RetryError)], sent = 6\<rparr>"
  let ?w2 = "\<lparr>files = Map.empty,
          log = [(INFO, Attempting ?url), (ERROR, Download_error ?url RetryError)], sent = 6\<rparr>"
  have get: "session_get 5 (always_503 ?url) 0 = (Inl RetryError, 6)"
    by (simp add: always_503_def status_forcelist_def eval_nat_numeral)
  have l27: "loop_27 no_unicode always_503 [?url] ([], fresh_world) = ([], ?w1)"
    by (simp add: step_27_def download_pdf_27_def Let_def logging_def fresh_world_def get)
  have l28: "loop_28 no_unicode always_503 [?url] ([], fresh_world) = Inr ([], ?w2)"
    by (simp add: step_28_def download_pdf_28_def Let_def logging_def fresh_world_def get)
  from empty_results_output[of no_unicode always_503 "[?url]" fresh_world ?w2
      "ascii ''us_code_citations_2024-11-28-0900.csv''"] l27 l28
  show ?thesis
    by (simp add: logging_def)
qed

section \<open>Searching and scanning\<close>

lemma find_upt_None:
  "List.find P [a ..< b] = None \<longleftrightarrow> (\<forall>q. a \<le> q \<and> q < b \<longrightarrow> \<not> P q)"
  by (auto simp: find_None_iff)

lemma find_upt_Some:
  "List.find P [a ..< b] = Some s \<longleftrightarrow> a \<le> s \<and> s < b \<and> P s \<and> (\<forall>q. a \<le> q \<and> q < s \<longrightarrow> \<not> P q)"
proof
  assume "List.find P [a ..< b] = Some s"
  then obtain k where k: "k < length [a ..< b]" "P ([a ..< b] ! k)" "s = [a ..< b] ! k"
    "\<forall>j<k. \<not> P ([a ..< b] ! j)"
    unfolding find_Some_iff by blast
  from k(1) have kb: "a + k < b" by simp
  then have sk: "s = a + k" using k(3) by simp
  have "\<not> P q" if "a \<le> q" "q < s" for q
  proof -
    from that sk have "q - a < k" by simp
    with k(4) have "\<not> P ([a ..< b] ! (q - a))" by blast
    moreover have "[a ..< b] ! (q - a) = q"
      using that sk kb by simp
    ultimately show ?thesis by simp
  qed
  with k(2) sk kb show "a \<le> s \<and> s < b \<and> P s \<and> (\<forall>q. a \<le> q \<and> q < s \<longrightarrow> \<not> P q)"
    by simp
next
  assume r: "a \<le> s \<and> s < b \<and> P s \<and> (\<forall>q. a \<le> q \<and> q < s \<longrightarrow> \<not> P q)"
  then have len: "s - a < length [a ..< b]"
    by auto
  from r have nth: "[a ..< b] ! (s - a) = s"
    by auto
  have "\<not> P ([a ..< b] ! j)" if "j < s - a" for j
  proof -
    from that r have "[a ..< b] ! j = a + j" by auto
    moreover from that r have "a \<le> a + j \<and> a + j < s" by auto
    ultimately show ?thesis using r by simp
  qed
  with len nth r show "List.find P [a ..< b] = Some s"
    unfolding find_Some_iff by metis
qed

lemma search_None:
  "search U r t pos = None \<longleftrightarrow> (\<forall>q. pos \<le> q \<and> q \<le> length t \<longrightarrow> matches U r t q = [])"
proof -
  have "search U r t pos = None
      \<longleftrightarrow> List.find (\<lambda>s. matches U r t s \<noteq> []) [pos ..< Suc (length t)] = None"
    by (simp add: search_def del: upt_Suc split: option.splits)
  then show ?thesis
    by (simp add: find_upt_None less_Suc_eq_le del: upt_Suc)
qed

lemma search_Some:
  "search U r t pos = Some (s, e) \<longleftrightarrow>
     pos \<le> s \<and> s \<le> length t \<and> matches U r t s \<noteq> [] \<and> e = hd (matches U r t s)
     \<and> (\<forall>q. pos \<le> q \<and> q < s \<longrightarrow> matches U r t q = [])"
proof -
  have "search U r t pos = Some (s, e)
      \<longleftrightarrow> List.find (\<lambda>s. matches U r t s \<noteq> []) [pos ..< Suc (length t)] = Some s
          \<and> e = hd (matches U r t s)"
    by (auto simp: search_def simp del: upt_Suc split: option.splits)
  then show ?thesis
    by (auto simp: find_upt_Some less_Suc_eq_le simp del: upt_Suc)
qed

lemma run_bound: "p \<le> length t \<Longrightarrow> p + run U cs t p \<le> length t"
proof -
  have "run U cs t p \<le> length (drop p t)"
    unfolding run_def by (rule length_takeWhile_le)
  then show "p \<le> length t \<Longrightarrow> p + run U cs t p \<le> length t" by simp
qed

lemma set_matches_Rep:
  "set (matches U (Rep cs lo hi) t p)
     = (\<lambda>i. p + i) ` {lo .. (case hi of None \<Rightarrow> run U cs t p | Some h \<Rightarrow> min (run U cs t p) h)}"
  by (simp add: Let_def atLeastLessThanSuc_atLeastAtMost del: upt_Suc)

lemma matches_min_len:
  "e \<in> set (matches U r t p) \<Longrightarrow> p + min_len r \<le> e"
proof (induction r arbitrary: p e)
  case (In cs)
  then show ?case by (auto split: if_splits)
next
  case (Rep cs lo hi)
  then show ?case
    unfolding set_matches_Rep by auto
next
  case Bnd
  then show ?case by (auto split: if_splits)
next
  case Eps
  then show ?case by simp
next
  case (Seq a b)
  then obtain m where "m \<in> set (matches U a t p)" "e \<in> set (matches U b t m)"
    by auto
  with Seq.IH(1)[of m p] Seq.IH(2)[of e m] show ?case by simp
next
  case (Alt a b)
  from Alt.prems have "e \<in> set (matches U a t p) \<or> e \<in> set (matches U b t p)"
    by simp
  with Alt.IH(1)[of e p] Alt.IH(2)[of e p] show ?case
    by auto
qed

lemma matches_within:
  "p \<le> length t \<Longrightarrow> e \<in> set (matches U r t p) \<Longrightarrow> e \<le> length t"
proof (induction r arbitrary: p e)
  case (In cs)
  then show ?case by (auto split: if_splits)
next
  case (Rep cs lo hi)
  let ?n = "case hi of None \<Rightarrow> run U cs t p | Some h \<Rightarrow> min (run U cs t p) h"
  have n: "?n \<le> run U cs t p"
    by (simp split: option.splits)
  from Rep(2) have "e \<in> (\<lambda>i. p + i) ` {lo .. ?n}"
    unfolding set_matches_Rep .
  then obtain i where i: "e = p + i" "i \<le> ?n"
    by (auto simp only: image_iff atLeastAtMost_iff)
  with n run_bound[OF Rep(1), of U cs] show ?case by simp
next
  case Bnd
  then show ?case by (auto split: if_splits)
next
  case Eps
  then show ?case by simp
next
  case (Seq a b)
  from Seq.prems(2) obtain m where "m \<in> set (matches U a t p)" "e \<in> set (matches U b t m)"
    by auto
  with Seq.IH(1)[OF Seq.prems(1), of m] Seq.IH(2)[of m e] show ?case by simp
next
  case (Alt a b)
  from Alt.prems(2) have "e \<in> set (matches U a t p) \<or> e \<in> set (matches U b t p)"
    by simp
  with Alt.IH(1)[OF Alt.prems(1), of e] Alt.IH(2)[OF Alt.prems(1), of e] show ?case
    by auto
qed

lemma finditer_scan:
  "0 < min_len r \<Longrightarrow> pos \<le> length t \<Longrightarrow> is_scan U r t pos (finditer U r t pos)"
proof (induction U r t pos rule: finditer.induct)
  case (1 U r t pos)
  show ?case
  proof (cases "search U r t pos")
    case None
    then have "finditer U r t pos = []"
      by (simp add: finditer.simps[of U r t pos])
    moreover from None have "\<forall>q. pos \<le> q \<and> q \<le> length t \<longrightarrow> matches U r t q = []"
      by (simp add: search_None)
    ultimately show ?thesis
      by simp
  next
    case (Some x)
    obtain s e where x: "x = (s, e)" by (cases x)
    with Some have found: "search U r t pos = Some (s, e)" by simp
    then have b: "pos \<le> s" "s \<le> length t" "matches U r t s \<noteq> []"
      "e = hd (matches U r t s)" "\<forall>q. pos \<le> q \<and> q < s \<longrightarrow> matches U r t q = []"
      by (simp_all add: search_Some)
    from b(3,4) have mem: "e \<in> set (matches U r t s)" by simp
    from matches_min_len[OF mem] "1.prems"(1) have es: "s < e"
      by simp
    from matches_within[OF b(2) mem] have el: "e \<le> length t" .
    have "is_scan U r t e (finditer U r t e)"
      using "1.IH"[OF found refl] "1.prems"(1) es el by simp
    moreover have "finditer U r t pos = (s, e) # finditer U r t e"
      using found es by (simp add: finditer.simps[of U r t pos])
    ultimately show ?thesis
      using b es el by simp
  qed
qed

lemma scan_ordered:
  "is_scan U r t pos spans \<Longrightarrow> sorted_wrt (\<lambda>a b. snd a \<le> fst b) spans \<and> (\<forall>x\<in>set spans. pos \<le> fst x)"
proof (induction spans arbitrary: pos)
  case Nil
  then show ?case by simp
next
  case (Cons x spans)
  obtain s e where x: "x = (s, e)" by (cases x)
  from Cons.prems[unfolded x is_scan.simps atLeastAtMost_iff]
  have a: "pos \<le> s" "s < e" "is_scan U r t e spans"
    by blast+
  from Cons.IH[OF a(3)] a(1,2) show ?case
    by (auto simp: x)
qed

lemma min_len_27: "min_len pattern_27 = 5"
  by code_simp

lemma min_len_28: "min_len pattern_28 = 8"
  by code_simp

lemma twice_27:
  "find_us_code_citations_27 U (ascii ''42 U.S.C. 1983 and 42 U.S.C. 1983 again'')
     = [ascii ''42 U.S.C. 1983'', ascii ''42 U.S.C. 1983'']"
  by code_simp

lemma twice_28:
  "find_us_code_citations_28 U (ascii ''42 U.S.C. 1983 and 42 U.S.C. 1983 again'')
     = [ascii ''42 U.S.C. 1983'', ascii ''42 U.S.C. 1983'']"
  by code_simp

text \<open>
  C2. In both files the citations returned are the substrings of the spans of one
  left-to-right scan for non-overlapping occurrences of the pattern (stripped, in the
  2024-11-28 file), one per span and in the order of the text: a span starts where the
  one before ended or later. Nothing removes a repeated citation: the text
  \<^verbatim>\<open>42 U.S.C. 1983 and 42 U.S.C. 1983 again\<close> gives the citation twice.
\<close>

theorem one_match_per_occurrence:
  "find_us_code_citations_27 U text
     = map (\<lambda>(s, e). slice text s e) (finditer U pattern_27 text 0)
   \<and> find_us_code_citations_28 U text
     = map (\<lambda>(s, e). strip (slice text s e)) (finditer U pattern_28 text 0)
   \<and> is_scan U pattern_27 text 0 (finditer U pattern_27 text 0)
   \<and> is_scan U pattern_28 text 0 (finditer U pattern_28 text 0)
   \<and> sorted_wrt (\<lambda>a b. snd a \<le> fst b) (finditer U pattern_27 text 0)
   \<and> sorted_wrt (\<lambda>a b. snd a \<le> fst b) (finditer U pattern_28 text 0)
   \<and> find_us_code_citations_27 U (ascii ''42 U.S.C. 1983 and 42 U.S.C. 1983 again'')
     = [ascii ''42 U.S.C. 1983'', ascii ''42 U.S.C. 1983'']
   \<and> find_us_code_citations_28 U (ascii ''42 U.S.C. 1983 and 42 U.S.C. 1983 again'')
     = [ascii ''42 U.S.C. 1983'', ascii ''42 U.S.C. 1983'']"
proof -
  have s27: "is_scan U pattern_27 text 0 (finditer U pattern_27 text 0)"
    by (rule finditer_scan) (simp_all add: min_len_27)
  have s28: "is_scan U pattern_28 text 0 (finditer U pattern_28 text 0)"
    by (rule finditer_scan) (simp_all add: min_len_28)
  have f28: "find_us_code_citations_28 U text
     = map (\<lambda>(s, e). strip (slice text s e)) (finditer U pattern_28 text 0)"
    by (simp add: find_us_code_citations_28_def findall_def split_def)
  have f27: "find_us_code_citations_27 U text
     = map (\<lambda>(s, e). slice text s e) (finditer U pattern_27 text 0)"
    by (simp add: find_us_code_citations_27_def findall_def)
  from s27 s28 f27 f28 scan_ordered[OF s27] scan_ordered[OF s28] twice_27 twice_28
  show ?thesis by blast
qed

theorem one_match_per_occurrence_witness:
  "finditer no_unicode pattern_28 (ascii ''42 U.S.C. 1983 and 42 U.S.C. 1983 again'') 0
     = [(0, 14), (19, 33)]
   \<and> is_scan no_unicode pattern_28 (ascii ''42 U.S.C. 1983 and 42 U.S.C. 1983 again'') 0
        [(0, 14), (19, 33)]
   \<and> find_us_code_citations_28 no_unicode (ascii ''42 U.S.C. 1983 and 42 U.S.C. 1983 again'')
     = [ascii ''42 U.S.C. 1983'', ascii ''42 U.S.C. 1983'']
   \<and> finditer no_unicode pattern_27 (ascii ''42 U.S.C. 1983 and 42 U.S.C. 1983 again'') 0
     = [(0, 14), (19, 33)]
   \<and> is_scan no_unicode pattern_27 (ascii ''42 U.S.C. 1983 and 42 U.S.C. 1983 again'') 0
        [(0, 14), (19, 33)]"
proof -
  let ?t = "ascii ''42 U.S.C. 1983 and 42 U.S.C. 1983 again''"
  have a: "finditer no_unicode pattern_28 ?t 0 = [(0, 14), (19, 33)]"
    by code_simp
  have b: "finditer no_unicode pattern_27 ?t 0 = [(0, 14), (19, 33)]"
    by code_simp
  from one_match_per_occurrence[of no_unicode ?t] show ?thesis
    unfolding a b by blast
qed

section \<open>The title number\<close>

lemma set_matches_Seq:
  "set (matches U (Seq a b) t p) = (\<Union>m\<in>set (matches U a t p). set (matches U b t m))"
  by simp

lemma in_matches_Rep:
  "q \<in> set (matches U (Rep cs lo hi) t p) \<longleftrightarrow>
     (\<exists>n. q = p + n \<and> lo \<le> n
        \<and> n \<le> (case hi of None \<Rightarrow> run U cs t p | Some h \<Rightarrow> min (run U cs t p) h))"
  unfolding set_matches_Rep image_iff Bex_def atLeastAtMost_iff by blast

lemma run_prefix:
  assumes "i < run U cs t p"
  shows "p + i < length t \<and> in_items U cs (t ! (p + i))"
proof -
  let ?xs = "drop p t"
  from assms have i: "i < length (takeWhile (in_items U cs) ?xs)"
    by (simp add: run_def)
  then have "takeWhile (in_items U cs) ?xs ! i \<in> set (takeWhile (in_items U cs) ?xs)"
    by (rule nth_mem)
  then have "in_items U cs (takeWhile (in_items U cs) ?xs ! i)"
    by (rule set_takeWhileD[THEN conjunct2])
  moreover from i have "takeWhile (in_items U cs) ?xs ! i = ?xs ! i"
    by (rule takeWhile_nth)
  moreover from i have len: "i < length ?xs"
    using length_takeWhile_le[of "in_items U cs" ?xs] by simp
  ultimately show ?thesis by simp
qed

lemma in_items_digit: "in_items U [CDigit] c = is_digit U c"
  by (simp add: in_items_def)

lemma in_items_space: "in_items U [CSpace] c = is_space c"
  by (simp add: in_items_def)

lemma matches_title12:
  assumes "m \<in> set (matches U title12 t p)"
  shows "\<exists>n\<in>{1, 2}. p + n < length t \<and> (\<forall>i<n. is_digit U (t ! (p + i))) \<and> is_space (t ! (p + n))"
proof -
  from assms obtain q where q: "q \<in> set (matches U (Rep [CDigit] 1 (Some 2)) t p)"
    "m \<in> set (matches U (In [CSpace]) t q)"
    unfolding title12_def set_matches_Seq by blast
  from q(1) obtain n where n: "q = p + n" "1 \<le> n" "n \<le> min (run U [CDigit] t p) 2"
    unfolding in_matches_Rep option.case by blast
  from q(2) have sp: "q < length t" "is_space (t ! q)"
    by (auto simp: in_items_space split: if_splits)
  have "\<forall>i<n. is_digit U (t ! (p + i))"
    using run_prefix[of _ U "[CDigit]" t p] n(3) by (simp add: in_items_digit)
  with n sp have "n \<in> {1, 2} \<and> p + n < length t \<and> (\<forall>i<n. is_digit U (t ! (p + i)))
      \<and> is_space (t ! (p + n))"
    by auto
  then show ?thesis by blast
qed

lemma matches_abbrev_lead_ins:
  assumes "m \<in> set (matches U abbrev_lead_ins t p)"
  shows "\<exists>q. q \<in> set (matches U title12 t p)"
  using assms unfolding abbrev_lead_ins_def alts_def
  by (auto simp del: matches.simps(1,2) simp add: set_matches_Seq)

lemma matches_pattern_27:
  assumes "e \<in> set (matches U pattern_27 t p)"
  shows "at_boundary U t p \<and> (\<exists>m. m \<in> set (matches U lead_ins_27 t p))"
  using assms unfolding pattern_27_def seqs_def
  by (auto split: if_splits)

lemma title_123_27: "find_us_code_citations_27 U (ascii ''123 U.S.C. 45'') = []"
  by code_simp

lemma title_12_27: "find_us_code_citations_27 U (ascii ''12 U.S.C. 45'') = [ascii ''12 U.S.C. 45'']"
  by code_simp

lemma chapter_title_123_27:
  "find_us_code_citations_27 U (ascii ''chapter 5 of title 123, United States Code'')
     = [ascii ''chapter 5 of title 123, United States Code'']"
  by code_simp

lemma title_123_28: "find_us_code_citations_28 U (ascii ''123 U.S.C. 45'') = [ascii ''123 U.S.C. 45'']"
  by code_simp

text \<open>
  C4 (as amended). A match of the 2024-11-27 pattern starts at a word boundary, and it
  starts with one or two digits followed by white space unless one of the two forms
  with \<^verbatim>\<open>of title <n>, United States Code\<close> matches there: the title number before an
  abbreviation is 1 to 2 digits, so \<^verbatim>\<open>123 U.S.C. 45\<close> gives no match and \<^verbatim>\<open>12 U.S.C. 45\<close> gives
  one. The title number of the forms with \<^verbatim>\<open>of title\<close> has any number of digits, and so
  has the number before \<^verbatim>\<open>U.S.C.\<close> in the 2024-11-28 pattern, which matches
  \<^verbatim>\<open>123 U.S.C. 45\<close> whole.
\<close>

theorem title_number_digits:
  "(e \<in> set (matches U pattern_27 t p) \<longrightarrow>
      at_boundary U t p
      \<and> ((\<exists>n\<in>{1, 2}. p + n < length t \<and> (\<forall>i<n. is_digit U (t ! (p + i))) \<and> is_space (t ! (p + n)))
         \<or> matches U title_lead_ins t p \<noteq> []))
   \<and> find_us_code_citations_27 U (ascii ''123 U.S.C. 45'') = []
   \<and> find_us_code_citations_27 U (ascii ''12 U.S.C. 45'') = [ascii ''12 U.S.C. 45'']
   \<and> find_us_code_citations_27 U (ascii ''chapter 5 of title 123, United States Code'')
       = [ascii ''chapter 5 of title 123, United States Code'']
   \<and> find_us_code_citations_28 U (ascii ''123 U.S.C. 45'') = [ascii ''123 U.S.C. 45'']"
proof -
  have "at_boundary U t p
      \<and> ((\<exists>n\<in>{1, 2}. p + n < length t \<and> (\<forall>i<n. is_digit U (t ! (p + i))) \<and> is_space (t ! (p + n)))
         \<or> matches U title_lead_ins t p \<noteq> [])"
    if e: "e \<in> set (matches U pattern_27 t p)"
  proof -
    from matches_pattern_27[OF e] obtain m where b: "at_boundary U t p"
      and m: "m \<in> set (matches U lead_ins_27 t p)"
      by blast
    from m have "m \<in> set (matches U abbrev_lead_ins t p) \<or> m \<in> set (matches U title_lead_ins t p)"
      by (simp add: lead_ins_27_def)
    then show ?thesis
    proof
      assume "m \<in> set (matches U abbrev_lead_ins t p)"
      then obtain q where "q \<in> set (matches U title12 t p)"
        using matches_abbrev_lead_ins by blast
      from matches_title12[OF this] b show ?thesis by blast
    next
      assume "m \<in> set (matches U title_lead_ins t p)"
      then have "matches U title_lead_ins t p \<noteq> []" by auto
      with b show ?thesis by blast
    qed
  qed
  with title_123_27 title_12_27 chapter_title_123_27 title_123_28 show ?thesis
    by blast
qed

text \<open>
  C4, as the claim states it, fails: the 2024-11-28 matcher returns \<^verbatim>\<open>123 U.S.C. 45\<close>,
  and the 2024-11-27 matcher returns a citation whose title number is 123.
\<close>

theorem title_number_28_counterexample:
  "\<forall>U. find_us_code_citations_28 U (ascii ''123 U.S.C. 45'') = [ascii ''123 U.S.C. 45'']
      \<and> find_us_code_citations_27 U (ascii ''chapter 5 of title 123, United States Code'')
          = [ascii ''chapter 5 of title 123, United States Code'']"
  by (simp add: title_123_28 chapter_title_123_27)

theorem title_number_digits_witness:
  "16 \<in> set (matches no_unicode pattern_27 (ascii ''see 12 U.S.C. 45'') 4)
   \<and> at_boundary no_unicode (ascii ''see 12 U.S.C. 45'') 4
   \<and> is_digit no_unicode (ascii ''see 12 U.S.C. 45'' ! 4)
   \<and> is_digit no_unicode (ascii ''see 12 U.S.C. 45'' ! 5)
   \<and> is_space (ascii ''see 12 U.S.C. 45'' ! 6)
   \<and> matches no_unicode title_lead_ins (ascii ''see 12 U.S.C. 45'') 4 = []"
proof -
  let ?t = "ascii ''see 12 U.S.C. 45''"
  have mem: "16 \<in> set (matches no_unicode pattern_27 ?t 4)"
    by code_simp
  have rest: "is_digit no_unicode (?t ! 4) \<and> is_digit no_unicode (?t ! 5) \<and> is_space (?t ! 6)
      \<and> matches no_unicode title_lead_ins ?t 4 = []"
    by code_simp
  from title_number_digits[of 16 no_unicode ?t 4] mem
  have "at_boundary no_unicode ?t 4"
    by blast
  with mem rest show ?thesis
    by blast
qed

section \<open>Normalization\<close>

lemma run_space: "run U [CSpace] t p = length (takeWhile is_space (drop p t))"
  by (simp add: run_def in_items_space[abs_def])

lemma run_space_pos:
  "0 < run U [CSpace] t p \<longleftrightarrow> p < length t \<and> is_space (t ! p)"
proof (cases "p < length t")
  case True
  then have "drop p t = t ! p # drop (Suc p) t"
    by (simp add: Cons_nth_drop_Suc)
  then show ?thesis using True by (simp add: run_space)
next
  case False
  then show ?thesis by (simp add: run_space)
qed

lemma matches_Rep_nonempty:
  "matches U (Rep cs lo None) t p \<noteq> [] \<longleftrightarrow> lo \<le> run U cs t p"
  by (auto simp: Let_def simp del: upt_Suc)

lemma hd_matches_Rep:
  assumes "lo \<le> run U cs t p"
  shows "hd (matches U (Rep cs lo None) t p) = p + run U cs t p"
proof -
  from assms have "[lo ..< Suc (run U cs t p)] \<noteq> []"
    by (simp del: upt_Suc)
  moreover from assms have "last [lo ..< Suc (run U cs t p)] = run U cs t p"
    by (simp add: last_upt del: upt_Suc)
  ultimately show ?thesis
    by (simp add: Let_def hd_map hd_rev del: upt_Suc)
qed

lemma matches_spaces:
  "matches U ws_plus t p \<noteq> [] \<longleftrightarrow> p < length t \<and> is_space (t ! p)"
  unfolding ws_plus_def matches_Rep_nonempty
  using run_space_pos[of U t p] by (simp add: Suc_le_eq)

lemma hd_matches_spaces:
  assumes "matches U ws_plus t p \<noteq> []"
  shows "hd (matches U ws_plus t p) = p + run U [CSpace] t p"
  using assms unfolding ws_plus_def matches_Rep_nonempty by (rule hd_matches_Rep)

lemma collapse_plain:
  "\<forall>x\<in>set xs. \<not> is_space x \<Longrightarrow> collapse (xs @ ys) = xs @ collapse ys"
  by (induction xs) auto

lemma collapse_run:
  assumes "p < length t" and "is_space (t ! p)"
  shows "collapse (drop p t) = 32 # collapse (drop (p + run U [CSpace] t p) t)"
proof -
  from assms(1) have d: "drop p t = t ! p # drop (Suc p) t"
    by (simp add: Cons_nth_drop_Suc)
  have "dropWhile is_space (drop (Suc p) t)
      = drop (length (takeWhile is_space (drop (Suc p) t))) (drop (Suc p) t)"
    by (rule dropWhile_eq_drop)
  moreover have "run U [CSpace] t p = Suc (length (takeWhile is_space (drop (Suc p) t)))"
    using assms(2) by (simp add: run_space d)
  ultimately have "dropWhile is_space (drop (Suc p) t) = drop (p + run U [CSpace] t p) t"
    by (simp add: add.commute)
  with assms(2) show ?thesis
    by (simp add: d)
qed

lemma sub_spaces:
  "pos \<le> length t \<Longrightarrow>
     sub_from [32] t pos (finditer U ws_plus t pos) = collapse (drop pos t)"
proof (induction U ws_plus t pos rule: finditer.induct)
  case (1 U t pos)
  let ?ws = ws_plus
  show ?case
  proof (cases "search U ?ws t pos")
    case None
    then have "\<forall>q. pos \<le> q \<and> q \<le> length t \<longrightarrow> matches U ws_plus t q = []"
      by (simp add: search_None)
    then have none: "\<forall>q. pos \<le> q \<and> q \<le> length t \<longrightarrow> \<not> (q < length t \<and> is_space (t ! q))"
      using matches_spaces[of U t] by blast
    have "\<forall>x\<in>set (drop pos t). \<not> is_space x"
    proof
      fix x assume "x \<in> set (drop pos t)"
      then obtain i where "i < length (drop pos t)" "x = drop pos t ! i"
        by (auto simp: in_set_conv_nth)
      then have "pos + i < length t" "x = t ! (pos + i)"
        by auto
      with none show "\<not> is_space x" by auto
    qed
    then have "collapse (drop pos t @ []) = drop pos t @ collapse []"
      by (rule collapse_plain)
    with None show ?thesis
      by (simp add: finditer.simps[of U ?ws t pos] del: matches.simps)
  next
    case (Some x)
    obtain s e where x: "x = (s, e)" by (cases x)
    with Some have found: "search U ?ws t pos = Some (s, e)" by simp
    then have b: "pos \<le> s" "s \<le> length t" "matches U ?ws t s \<noteq> []"
      "e = hd (matches U ?ws t s)" "\<forall>q. pos \<le> q \<and> q < s \<longrightarrow> matches U ?ws t q = []"
      by (simp_all add: search_Some del: matches.simps)
    from b(3) have sp: "s < length t" "is_space (t ! s)"
      by (simp_all add: matches_spaces del: matches.simps)
    have e: "e = s + run U [CSpace] t s"
      using b(3,4) by (simp add: hd_matches_spaces del: matches.simps)
    have "0 < run U [CSpace] t s"
      using sp by (simp add: run_space_pos)
    with e have es: "s < e" by simp
    have el: "e \<le> length t"
      using run_bound[of s t U "[CSpace]"] sp e by simp
    have ih: "sub_from [32] t e (finditer U ?ws t e) = collapse (drop e t)"
      using "1.hyps"[OF found refl] es el by simp
    have plain: "\<forall>x\<in>set (slice t pos s). \<not> is_space x"
    proof
      fix x assume "x \<in> set (slice t pos s)"
      then obtain i where i: "i < length (slice t pos s)" "x = slice t pos s ! i"
        by (auto simp: in_set_conv_nth)
      then have "pos + i < s" "x = t ! (pos + i)"
        using b(2) by (auto simp: slice_def)
      moreover from this b(5) have "matches U ?ws t (pos + i) = []"
        by simp
      ultimately show "\<not> is_space x"
        using matches_spaces[of U t "pos + i"] sp by simp
    qed
    have split: "drop pos t = slice t pos s @ drop s t"
    proof -
      have "drop pos (take s t @ drop s t)
          = drop pos (take s t) @ drop (pos - length (take s t)) (drop s t)"
        by (rule drop_append)
      moreover have "pos - length (take s t) = 0"
        using b(1,2) by simp
      ultimately show ?thesis by (simp add: slice_def)
    qed
    have "collapse (drop pos t) = slice t pos s @ collapse (drop s t)"
      using collapse_plain[OF plain, of "drop s t"] by (simp add: split[symmetric])
    also have "collapse (drop s t) = 32 # collapse (drop e t)"
      using collapse_run[OF sp, of U] by (simp add: e)
    finally have "collapse (drop pos t) = slice t pos s @ 32 # collapse (drop e t)" .
    with found es ih show ?thesis
      by (simp add: finditer.simps[of U ?ws t pos] del: matches.simps)
  qed
qed

lemma re_sub_spaces: "re_sub U ws_plus (ascii '' '') t = collapse t"
  using sub_spaces[of 0 t U] by (simp add: re_sub_def ascii_def del: matches.simps)

lemma single_spaced_collapse: "single_spaced (collapse t)"
proof (induction t rule: collapse.induct)
  case 1
  then show ?case by simp
next
  case (2 c cs)
  show ?case
  proof (cases "is_space c")
    case True
    show ?thesis
    proof (cases "dropWhile is_space cs")
      case Nil
      have "collapse (c # cs) = 32 # collapse (dropWhile is_space cs)"
        using True by simp
      also have "\<dots> = [32]"
        by (simp only: Nil collapse.simps)
      finally have "collapse (c # cs) = [32]" .
      moreover have "single_spaced [32]" by simp
      ultimately show ?thesis by (simp only:)
    next
      case (Cons d r)
      then have d: "\<not> is_space d"
        by (metis hd_dropWhile list.distinct(1) list.sel(1))
      have "collapse (c # cs) = 32 # collapse (dropWhile is_space cs)"
        using True by simp
      also have "\<dots> = 32 # d # collapse r"
        using d by (simp only: Cons collapse.simps if_False)
      finally have c: "collapse (c # cs) = 32 # d # collapse r" .
      from 2(1)[OF True] have "single_spaced (collapse (d # r))"
        by (simp only: Cons)
      with d have "single_spaced (d # collapse r)"
        by simp
      with d have "single_spaced (32 # d # collapse r)"
        by simp
      then show ?thesis
        by (simp only: c)
    qed
  next
    case False
    with 2 show ?thesis
      by (cases "collapse cs") simp_all
  qed
qed

lemma collapse_fixed: "single_spaced t \<Longrightarrow> collapse t = t"
  by (induction t rule: single_spaced.induct) auto

lemma single_spaced_replace:
  "single_spaced t \<Longrightarrow> single_spaced (replace_char 8212 45 t)"
  by (induction t rule: single_spaced.induct) (auto simp: replace_char_def is_space_def)

lemma replace_char_twice:
  "replace_char 8212 45 (replace_char 8212 45 t) = replace_char 8212 45 t"
  by (simp add: replace_char_def)

text \<open>
  C6. \<open>normalize_text\<close> is idempotent: normalizing a normalized text changes nothing.
\<close>

theorem normalize_text_idempotent:
  "normalize_text U (normalize_text U text) = normalize_text U text"
proof -
  have n: "normalize_text U t = replace_char 8212 45 (collapse t)" for t
    by (simp add: normalize_text_def re_sub_spaces del: matches.simps)
  have "single_spaced (replace_char 8212 45 (collapse text))"
    by (rule single_spaced_replace[OF single_spaced_collapse])
  then have "collapse (replace_char 8212 45 (collapse text)) = replace_char 8212 45 (collapse text)"
    by (rule collapse_fixed)
  then show ?thesis
    by (simp add: n replace_char_twice)
qed

section \<open>The context of a repeated citation\<close>

lemma take_drop_Cons:
  "take (Suc n) (drop p t) = x # xs \<longleftrightarrow> p < length t \<and> t ! p = x \<and> take n (drop (Suc p) t) = xs"
proof (cases "p < length t")
  case True
  then show ?thesis
    by (simp add: Cons_nth_drop_Suc[symmetric])
next
  case False
  then show ?thesis by simp
qed

lemma matches_re_escape:
  "matches U (re_escape c) t p = (if take (length c) (drop p t) = c then [p + length c] else [])"
proof (induction c arbitrary: p)
  case Nil
  then show ?case by (simp add: re_escape_def)
next
  case (Cons x xs)
  have unfold: "re_escape (x # xs) = Seq (In [CLit x]) (re_escape xs)"
    by (simp add: re_escape_def)
  show ?case
    by (simp add: unfold Cons.IH in_items_def take_drop_Cons)
qed

lemma re_search_escape:
  "re_search U (re_escape c) t
     = map_option (\<lambda>i. \<lparr>m_start = i, m_end = i + length c\<rparr>) (first_occurrence c t)"
proof -
  have p: "(\<lambda>s. matches U (re_escape c) t s \<noteq> []) = (\<lambda>i. take (length c) (drop i t) = c)"
    by (simp add: matches_re_escape fun_eq_iff)
  show ?thesis
  proof (cases "first_occurrence c t")
    case None
    then show ?thesis
      by (simp add: re_search_def search_def p first_occurrence_def del: upt_Suc)
  next
    case (Some i)
    then have "take (length c) (drop i t) = c"
      by (auto simp: first_occurrence_def find_Some_iff simp del: upt_Suc)
    then have "hd (matches U (re_escape c) t i) = i + length c"
      by (simp add: matches_re_escape)
    with Some show ?thesis
      by (simp add: re_search_def search_def p first_occurrence_def del: upt_Suc)
  qed
qed

lemma first_occurrence_first:
  assumes "first_occurrence c t = Some i"
  shows "take (length c) (drop i t) = c \<and> (\<forall>j<i. take (length c) (drop j t) \<noteq> c)"
proof -
  from assms obtain k where k: "k < length [0 ..< Suc (length t)]"
    "take (length c) (drop ([0 ..< Suc (length t)] ! k) t) = c"
    "i = [0 ..< Suc (length t)] ! k"
    "\<forall>j<k. take (length c) (drop ([0 ..< Suc (length t)] ! j) t) \<noteq> c"
    unfolding first_occurrence_def find_Some_iff by blast
  from k(1) have klen: "k < Suc (length t)" by (simp del: upt_Suc)
  then have ik: "i = k" using k(3) by (simp add: nth_upt del: upt_Suc)
  have "\<forall>j\<le>k. [0 ..< Suc (length t)] ! j = j"
    using klen by (auto simp: nth_upt simp del: upt_Suc)
  with k(2,4) ik show ?thesis by (auto simp del: upt_Suc)
qed

text \<open>
  C5. The rows of a document carry, for each citation, the context of the first
  position at which the citation string occurs in the text, whichever occurrence the
  citation came from: a citation found twice gives two rows with the context of the
  first occurrence.
\<close>

theorem context_of_first_occurrence:
  "citation_rows U url text citations
     = concat (map (\<lambda>c. case first_occurrence c text of
                          None \<Rightarrow> []
                        | Some i \<Rightarrow> [row_28 url c (get_context text \<lparr>m_start = i, m_end = i + length c\<rparr> 40)])
                   citations)
   \<and> (first_occurrence c text = Some i \<longrightarrow>
        slice text i (i + length c) = c \<and> (\<forall>j<i. slice text j (j + length c) \<noteq> c))"
proof
  have "(\<lambda>citation. case re_search U (re_escape citation) text of
          None \<Rightarrow> []
        | Some m \<Rightarrow> [row_28 url citation (get_context text m 40)])
      = (\<lambda>c. case first_occurrence c text of
                          None \<Rightarrow> []
                        | Some i \<Rightarrow> [row_28 url c (get_context text \<lparr>m_start = i, m_end = i + length c\<rparr> 40)])"
    by (auto simp: re_search_escape fun_eq_iff split: option.splits)
  then show "citation_rows U url text citations
     = concat (map (\<lambda>c. case first_occurrence c text of
                          None \<Rightarrow> []
                        | Some i \<Rightarrow> [row_28 url c (get_context text \<lparr>m_start = i, m_end = i + length c\<rparr> 40)])
                   citations)"
    by (simp add: citation_rows_def)
next
  have s: "slice text j (j + length c) = take (length c) (drop j text)" for j
    by (simp add: slice_def drop_take)
  show "first_occurrence c text = Some i \<longrightarrow>
        slice text i (i + length c) = c \<and> (\<forall>j<i. slice text j (j + length c) \<noteq> c)"
    using first_occurrence_first[of c "text" i] by (simp add: s)
qed


theorem context_of_first_occurrence_witness:
  "citation_rows no_unicode (ascii ''https://www.usda.gov/ppd.pdf'')
     (ascii ''Under 42 U.S.C. 1983 a person may sue; see further the later text of 42 U.S.C. 1983 too.'')
     (find_us_code_citations_28 no_unicode
        (ascii ''Under 42 U.S.C. 1983 a person may sue; see further the later text of 42 U.S.C. 1983 too.''))
   = [row_28 (ascii ''https://www.usda.gov/ppd.pdf'') (ascii ''42 U.S.C. 1983'')
        (ascii ''Under 42 U.S.C. 1983 a person may sue; see further the later''),
      row_28 (ascii ''https://www.usda.gov/ppd.pdf'') (ascii ''42 U.S.C. 1983'')
        (ascii ''Under 42 U.S.C. 1983 a person may sue; see further the later'')]
   \<and> finditer no_unicode pattern_28
        (ascii ''Under 42 U.S.C. 1983 a person may sue; see further the later text of 42 U.S.C. 1983 too.'') 0
     = [(6, 20), (69, 83)]
   \<and> get_context
        (ascii ''Under 42 U.S.C. 1983 a person may sue; see further the later text of 42 U.S.C. 1983 too.'')
        \<lparr>m_start = 69, m_end = 83\<rparr> 40
     = ascii ''may sue; see further the later text of 42 U.S.C. 1983 too.''"
proof -
  let ?t = "ascii ''Under 42 U.S.C. 1983 a person may sue; see further the later text of 42 U.S.C. 1983 too.''"
  let ?c = "ascii ''42 U.S.C. 1983''"
  have spans: "finditer no_unicode pattern_28 ?t 0 = [(6, 20), (69, 83)]"
    by code_simp
  have cs: "find_us_code_citations_28 no_unicode ?t = [?c, ?c]"
    by code_simp
  have first: "first_occurrence ?c ?t = Some 6"
    by code_simp
  have len: "length ?c = 14"
    by (simp add: ascii_def)
  have c1: "get_context ?t \<lparr>m_start = 6, m_end = 20\<rparr> 40
      = ascii ''Under 42 U.S.C. 1983 a person may sue; see further the later''"
    by code_simp
  have c2: "get_context ?t \<lparr>m_start = 69, m_end = 83\<rparr> 40
      = ascii ''may sue; see further the later text of 42 U.S.C. 1983 too.''"
    by code_simp
  have "citation_rows no_unicode (ascii ''https://www.usda.gov/ppd.pdf'') ?t [?c, ?c]
     = concat (map (\<lambda>c. case first_occurrence c ?t of
                          None \<Rightarrow> []
                        | Some i \<Rightarrow> [row_28 (ascii ''https://www.usda.gov/ppd.pdf'') c
                            (get_context ?t \<lparr>m_start = i, m_end = i + length c\<rparr> 40)])
                   [?c, ?c])"
    using context_of_first_occurrence[of no_unicode "ascii ''https://www.usda.gov/ppd.pdf''" ?t "[?c, ?c]"]
    by blast
  then show ?thesis
    by (simp add: cs first len c1 c2 spans)
qed

end
